theory Spec2Isabelle
  imports Main "HOL-Library.AList" "HOL-Library.Word"
begin

section \<open>Data model of blockpool/peers.go\<close>

text \<open>
  \<^verbatim>\<open>common.Hash\<close> is a 32-byte array; the zero value \<^verbatim>\<open>common.Hash{}\<close> is the word 0.
  Total difficulty is a \<^verbatim>\<open>*big.Int\<close>, an unbounded integer (a nil pointer is not modelled),
  and \<^verbatim>\<open>common.Big0\<close> is 0. Points in time and durations are integers (nanoseconds).
\<close>

type_synonym hash = "256 word"

text \<open>What the file reads of a \<^verbatim>\<open>*types.Block\<close>: \<^verbatim>\<open>ParentHash()\<close>, the field \<^verbatim>\<open>Td\<close>
  (nil or a value) and \<^verbatim>\<open>Queued()\<close>.\<close>

record block =
  blk_hash :: hash
  blk_parent :: hash
  blk_td :: "int option"
  blk_queued :: bool

text \<open>A \<^verbatim>\<open>*section\<close> is an opaque reference into the section store; a pool \<^verbatim>\<open>entry\<close>
  holds a section and a node, and a \<^verbatim>\<open>node\<close> a block that may still be missing.\<close>

type_synonym section_ref = nat

record node =
  node_block :: "block option"
  node_td :: "int option"

record entry =
  entry_section :: section_ref
  entry_node :: node

text \<open>A channel used as a one-shot broadcast signal (\<^verbatim>\<open>switchC\<close>, \<^verbatim>\<open>idleC\<close>): the identity
  that \<^verbatim>\<open>make\<close> gave it and whether it has been closed. A timer field is a receive-only
  channel: nil, armed by \<^verbatim>\<open>time.After d\<close>, or already delivered.\<close>

record chan =
  chan_id :: nat
  chan_closed :: bool

datatype timer = NoTimer | After int | Expired

record peer =
  td :: int
  tdAdvertised :: bool
  currentBlockHash :: hash
  currentBlock :: "block option"
  parentHash :: hash
  headSection :: "section_ref option"
  pid :: string
  sections :: "hash list"
  idleC :: "chan option"
  switchC :: chan
  blockHashesRequestTimer :: timer
  blocksRequestTimer :: timer
  headInfoTimer :: timer
  bestIdleTimer :: timer
  idle :: bool

text \<open>Error codes of the pool (constants of blockpool.go) that this file raises.\<close>

datatype errcode = ErrInvalidBlock | ErrIncorrectTD | ErrInsufficientChainInfo | ErrIdleTooLong

text \<open>Calls that leave the file: peer transport callbacks, the activation primitive, the
  signals sent to a head section process, started goroutines. A peer is named by its
  address in the store below.\<close>

datatype event =
    RequestBlocks nat "hash list"
  | RequestBlockHashes nat hash
  | PeerError nat errcode
  | ActivateChain section_ref nat
  | ActivateNewSection hash nat
  | HeadSectionSignal nat "section_ref option"
  | Run nat
  | Syncing
  | RemovePeerAsync string
  | InsertChain "block option"
  | PutHashSlice "hash list"

text \<open>Run-time panics of the Go code.\<close>

datatype error =
    CloseOfNilChannel
  | CloseOfClosedChannel
  | IndexOutOfRange
  | SliceBoundsOutOfRange
  | NegativeWaitGroupCounter
  | NotFoundInNodeCache

text \<open>
  The collaborators of the file that live elsewhere in the repository are parameters:
  the canonical chain (\<^verbatim>\<open>hasBlock\<close>, \<^verbatim>\<open>getTD\<close>, \<^verbatim>\<open>insertChain\<close>, which answers whether it
  returned an error), the pool's section store (\<^verbatim>\<open>get\<close>) and node cache, the effect of
  \<^verbatim>\<open>activateChain\<close> on the map of connected sections it is handed, \<^verbatim>\<open>errs.Error.Fatal\<close>
  per error code, and the configuration values.
\<close>

record env =
  hasBlock :: "hash \<Rightarrow> bool"
  getTD :: int
  get :: "hash \<Rightarrow> entry option"
  nodeCache :: "hash \<Rightarrow> node option"
  insertChain :: "block option \<Rightarrow> bool"
  activateChain :: "section_ref \<Rightarrow> (hash \<Rightarrow> section_ref option) \<Rightarrow> (hash \<Rightarrow> section_ref option)"
  fatal :: "errcode \<Rightarrow> bool"
  PeerSuspensionInterval :: int
  BlocksRequestRepetition :: int
  BlockHashesTimeout :: int
  IdleBestPeerTimeout :: int
  BlocksRequestInterval :: int
  BlockHashesRequestInterval :: int

text \<open>
  The state of \<^verbatim>\<open>peers\<close> and of the \<^verbatim>\<open>BlockPool\<close> fields this file touches. Peer records are
  heap objects shared between the map, the \<^verbatim>\<open>best\<close> pointer and their goroutines, so they
  live in a store (a pointer is an index, allocation appends, nothing is freed). The map
  \<^verbatim>\<open>peers.peers\<close> is an association list; its order is the order in which \<^verbatim>\<open>range\<close>
  visits it, which Go leaves unspecified, so statements hold for every order.
  \<^verbatim>\<open>wg\<close> is the counter of the pool's \<^verbatim>\<open>sync.WaitGroup\<close>.
\<close>

record pool =
  store :: "peer list"
  peers :: "(string \<times> nat) list"
  best :: "nat option"
  blacklist :: "string \<Rightarrow> int option"
  wg :: int
  nextChan :: nat
  newBlocks :: int
  statusPeers :: "string \<Rightarrow> int"
  bestPeers :: "string \<Rightarrow> int"
  badPeers :: "string \<Rightarrow> int"
  blocksInChain :: int
  blocksInPool :: int
  longestChain :: int
  chainHeights :: "hash \<Rightarrow> int option"
  events :: "event list"

definition empty_pool :: pool where
  "empty_pool = \<lparr>store = [], peers = [], best = None, blacklist = (\<lambda>_. None), wg = 0,
     nextChan = 0, newBlocks = 0, statusPeers = (\<lambda>_. 0), bestPeers = (\<lambda>_. 0),
     badPeers = (\<lambda>_. 0), blocksInChain = 0, blocksInPool = 0, longestChain = 0,
     chainHeights = (\<lambda>_. None), events = []\<rparr>"

definition upd :: "nat \<Rightarrow> (peer \<Rightarrow> peer) \<Rightarrow> pool \<Rightarrow> pool" where
  "upd a f s = s\<lparr>store := (store s)[a := f (store s ! a)]\<rparr>"

definition emit :: "event list \<Rightarrow> pool \<Rightarrow> pool" where
  "emit evs s = s\<lparr>events := events s @ evs\<rparr>"

section \<open>The registry\<close>

subsection \<open>newPeer\<close>

definition newPeer :: "int \<Rightarrow> hash \<Rightarrow> string \<Rightarrow> pool \<Rightarrow> nat \<times> pool" where
  "newPeer t h i s =
     (let p = \<lparr>td = t, tdAdvertised = False, currentBlockHash = h, currentBlock = None,
                parentHash = 0, headSection = None, pid = i, sections = [], idleC = None,
                switchC = \<lparr>chan_id = nextChan s, chan_closed = True\<rparr>,
                blockHashesRequestTimer = NoTimer, blocksRequestTimer = NoTimer,
                headInfoTimer = NoTimer, bestIdleTimer = NoTimer, idle = True\<rparr>;
          a = length (store s)
      in (a, s\<lparr>store := store s @ [p], peers := AList.update i a (peers s),
               nextChan := Suc (nextChan s)\<rparr>))"

subsection \<open>The blacklist\<close>

definition addToBlacklist :: "int \<Rightarrow> string \<Rightarrow> pool \<Rightarrow> pool" where
  "addToBlacklist now i s = s\<lparr>blacklist := (blacklist s)(i := Some now)\<rparr>"

definition suspended :: "env \<Rightarrow> int \<Rightarrow> string \<Rightarrow> pool \<Rightarrow> bool \<times> pool" where
  "suspended e now i s =
     (case blacklist s i of
        None \<Rightarrow> (False, s)
      | Some suspendedAt \<Rightarrow>
          if now < suspendedAt + PeerSuspensionInterval e then (True, s)
          else (False, s\<lparr>blacklist := (blacklist s)(i := None)\<rparr>))"

subsection \<open>addError and peerError\<close>

definition addError :: "env \<Rightarrow> int \<Rightarrow> errcode \<Rightarrow> nat \<Rightarrow> pool \<Rightarrow> pool" where
  "addError e now code a s =
     (let s1 = emit [PeerError a code] s
      in if fatal e code then addToBlacklist now (pid (store s1 ! a)) s1
         else emit [RemovePeerAsync (pid (store s1 ! a))] s1)"

definition peerError :: "env \<Rightarrow> int \<Rightarrow> string \<Rightarrow> errcode \<Rightarrow> pool \<Rightarrow> pool" where
  "peerError e now i code s =
     (case map_of (peers s) i of
        Some a \<Rightarrow> addError e now code a s
      | None \<Rightarrow> addToBlacklist now i s)"

subsection \<open>setChainInfo\<close>

definition setChainInfo :: "int \<Rightarrow> hash \<Rightarrow> peer \<Rightarrow> peer" where
  "setChainInfo t h p =
     (if currentBlockHash p \<noteq> h
      then p\<lparr>td := t, currentBlockHash := h, currentBlock := None, parentHash := 0,
             headSection := None\<rparr>
      else p)\<lparr>tdAdvertised := True\<rparr>"

subsection \<open>switchPeer\<close>

definition make_chan :: "pool \<Rightarrow> chan \<times> pool" where
  "make_chan s = (\<lparr>chan_id = nextChan s, chan_closed = False\<rparr>, s\<lparr>nextChan := Suc (nextChan s)\<rparr>)"

definition close_chan :: "chan option \<Rightarrow> error + chan" where
  "close_chan c =
     (case c of
        None \<Rightarrow> Inl CloseOfNilChannel
      | Some ch \<Rightarrow> if chan_closed ch then Inl CloseOfClosedChannel
                  else Inr (ch\<lparr>chan_closed := True\<rparr>))"

text \<open>The loop of \<^verbatim>\<open>switchPeer\<close> over \<^verbatim>\<open>newp.sections\<close>: the map \<^verbatim>\<open>connected\<close>, the list
  \<^verbatim>\<open>sections\<close> built so far and the calls made.\<close>

fun reattach ::
  "env \<Rightarrow> nat \<Rightarrow> hash list \<Rightarrow> (hash \<Rightarrow> section_ref option) \<Rightarrow> hash list \<Rightarrow> event list
     \<Rightarrow> hash list \<times> event list" where
  "reattach e n [] connected secs evs = (secs, evs)"
| "reattach e n (h # hs) connected secs evs =
     (if connected h = None then
        (case get e h of
           Some ent \<Rightarrow>
             reattach e n hs
               ((activateChain e (entry_section ent) connected)(h := Some (entry_section ent)))
               (secs @ [h]) (evs @ [ActivateChain (entry_section ent) n])
         | None \<Rightarrow> reattach e n hs connected secs evs)
      else reattach e n hs connected secs evs)"

definition switch_new :: "env \<Rightarrow> nat \<Rightarrow> pool \<Rightarrow> pool" where
  "switch_new e n s0 =
     (let (ic, s1) = make_chan s0;
          (sc, s2) = make_chan s1;
          s3 = upd n (\<lambda>p. p\<lparr>idleC := Some ic, switchC := sc\<rparr>) s2;
          s4 = (if headSection (store s3 ! n) = None then
                  emit [Run n]
                    (if idle (store s3 ! n)
                     then emit [Syncing] ((upd n (\<lambda>p. p\<lparr>idle := False\<rparr>) s3)\<lparr>wg := wg s3 + 1\<rparr>)
                     else s3)
                else s3);
          (secs, evs) = reattach e n (sections (store s4 ! n)) (\<lambda>_. None) [] []
      in upd n (\<lambda>p. p\<lparr>sections := secs\<rparr>) (emit evs s4))"

definition switchPeer :: "env \<Rightarrow> nat option \<Rightarrow> nat option \<Rightarrow> pool \<Rightarrow> error + pool" where
  "switchPeer e oldp newp s0 =
     (case (case oldp of
              None \<Rightarrow> Inr s0
            | Some ol \<Rightarrow>
                (case close_chan (Some (switchC (store s0 ! ol))) of
                   Inl err \<Rightarrow> Inl err
                 | Inr c \<Rightarrow> Inr (upd ol (\<lambda>p. p\<lparr>switchC := c\<rparr>) s0))) of
        Inl err \<Rightarrow> Inl err
      | Inr s1 \<Rightarrow>
          (let s2 = (case newp of None \<Rightarrow> s1 | Some n \<Rightarrow> switch_new e n s1)
           in case oldp of
                None \<Rightarrow> Inr s2
              | Some ol \<Rightarrow>
                  (case close_chan (idleC (store s2 ! ol)) of
                     Inl err \<Rightarrow> Inl err
                   | Inr c \<Rightarrow> Inr (upd ol (\<lambda>p. p\<lparr>idleC := Some c\<rparr>) s2))))"

subsection \<open>addPeer\<close>

text \<open>The first half of \<^verbatim>\<open>addPeer\<close>: find the record and update it, or create it, and count
  the announcement.\<close>

definition admit :: "int \<Rightarrow> hash \<Rightarrow> string \<Rightarrow> pool \<Rightarrow> nat \<times> pool" where
  "admit t h i s =
     (case map_of (peers s) i of
        Some p \<Rightarrow> (p, (upd p (setChainInfo t h) s)\<lparr>newBlocks := newBlocks s + 1\<rparr>)
      | None \<Rightarrow>
          (let (p, s1) = newPeer t h i s
           in (p, s1\<lparr>statusPeers := (statusPeers s1)(i := statusPeers s1 i + 1),
                     newBlocks := newBlocks s1 + 1\<rparr>)))"

text \<open>The result is \<^verbatim>\<open>(best, suspended)\<close> and the new state. \<^verbatim>\<open>previousBlockHash\<close> is the
  local variable of \<^verbatim>\<open>addPeer\<close>: it is declared and never assigned.\<close>

definition addPeer ::
  "env \<Rightarrow> int \<Rightarrow> int \<Rightarrow> hash \<Rightarrow> string \<Rightarrow> pool \<Rightarrow> error + ((bool \<times> bool) \<times> pool)" where
  "addPeer e now t h i s0 =
     (let previousBlockHash = (0 :: hash);
          (susp, s1) = suspended e now i s0
      in if susp then Inr ((False, True), s1)
         else
           (let (p, s2) = admit t h i s1
            in if hasBlock e h then Inr ((False, False), s2)
               else if best s2 = Some p then
                 Inr ((True, False),
                   (if previousBlockHash \<noteq> 0 then
                      (let s3 = emit [HeadSectionSignal p None] s2
                       in case get e previousBlockHash of
                            Some ent \<Rightarrow>
                              upd p (\<lambda>q. q\<lparr>sections := sections q @ [previousBlockHash]\<rparr>)
                                (emit [ActivateChain (entry_section ent) p] s3)
                          | None \<Rightarrow> s3)
                    else s2))
               else
                 (let bestpeer = best s2;
                      currentTD = (case bestpeer of None \<Rightarrow> getTD e
                                   | Some b \<Rightarrow> td (store s2 ! b))
                  in if currentTD < t then
                       (case switchPeer e bestpeer (Some p)
                               (s2\<lparr>bestPeers := (bestPeers s2)
                                     (pid (store s2 ! p) := bestPeers s2 (pid (store s2 ! p)) + 1)\<rparr>) of
                          Inl err \<Rightarrow> Inl err
                        | Inr s3 \<Rightarrow> Inr ((True, False), s3\<lparr>best := Some p\<rparr>))
                     else Inr ((False, False), s2))))"

subsection \<open>removePeer\<close>

text \<open>The scan of \<^verbatim>\<open>removePeer\<close> over the map: the store (the removed peer's record is
  zeroed when met), the running maximum and the candidate.\<close>

fun scan ::
  "string \<Rightarrow> (string \<times> nat) list \<Rightarrow> peer list \<Rightarrow> int \<Rightarrow> nat option
     \<Rightarrow> peer list \<times> int \<times> nat option" where
  "scan i [] st mx newp = (st, mx, newp)"
| "scan i ((k, a) # ps) st mx newp =
     (if pid (st ! a) = i
      then scan i ps (st[a := (st ! a)\<lparr>td := 0, currentBlockHash := 0\<rparr>]) mx newp
      else if mx < td (st ! a) then scan i ps st (td (st ! a)) (Some a)
      else scan i ps st mx newp)"

definition removePeer :: "env \<Rightarrow> string \<Rightarrow> bool \<Rightarrow> pool \<Rightarrow> error + pool" where
  "removePeer e i del s0 =
     (case map_of (peers s0) i of
        None \<Rightarrow> Inr s0
      | Some p \<Rightarrow>
          (let s1 = (if del then s0\<lparr>peers := AList.delete i (peers s0)\<rparr> else s0)
           in if best s1 = Some p then
                (let (st, mx, newp) = scan i (peers s1) (store s1) (getTD e) None;
                     s2 = s1\<lparr>store := st\<rparr>;
                     s3 = (case newp of
                             Some _ \<Rightarrow>
                               s2\<lparr>bestPeers := (bestPeers s2)
                                    (pid (store s2 ! p) := bestPeers s2 (pid (store s2 ! p)) + 1)\<rparr>
                           | None \<Rightarrow> s2)
                 in switchPeer e (Some p) newp (s3\<lparr>best := newp\<rparr>))
              else Inr s1))"

subsection \<open>requestBlocks\<close>

text \<open>The loop of \<^verbatim>\<open>requestBlocks\<close> over the map, with the counter \<^verbatim>\<open>i\<close> and the sorted
  \<^verbatim>\<open>indexes\<close> still to serve. \<^verbatim>\<open>indexes[0]\<close> panics on an empty slice, and so does
  \<^verbatim>\<open>hashes[0]\<close>, an argument of the log call before the request.\<close>

fun dispatch ::
  "hash list \<Rightarrow> (string \<times> nat) list \<Rightarrow> nat \<Rightarrow> nat list \<Rightarrow> event list \<Rightarrow> error + event list" where
  "dispatch hashes [] i indexes evs = Inr evs"
| "dispatch hashes ((k, a) # ps) i indexes evs =
     (case indexes of
        [] \<Rightarrow> Inl IndexOutOfRange
      | ix # rest \<Rightarrow>
          if i = ix then
            (if hashes = [] then Inl IndexOutOfRange
             else if rest = [] then Inr (evs @ [RequestBlocks a hashes])
             else dispatch hashes ps (Suc i) rest (evs @ [RequestBlocks a hashes]))
          else dispatch hashes ps (Suc i) indexes evs)"

text \<open>\<^verbatim>\<open>perm\<close> is what \<^verbatim>\<open>rand.Perm(peerCount)\<close> returned.\<close>

definition requestBlocks :: "env \<Rightarrow> nat list \<Rightarrow> int \<Rightarrow> hash list \<Rightarrow> pool \<Rightarrow> error + pool" where
  "requestBlocks e perm attempts hashes s =
     (let peerCount = int (length (peers s))
      in case (if attempts = 0 then best s else None) of
           Some b \<Rightarrow> Inr (emit [RequestBlocks b hashes] s)
         | None \<Rightarrow>
             (let repetitions = (if peerCount < BlocksRequestRepetition e then peerCount
                                 else BlocksRequestRepetition e)
              in if repetitions < 0 then Inl SliceBoundsOutOfRange
                 else
                   (case dispatch hashes (peers s) 0 (sort (take (nat repetitions) perm)) [] of
                      Inl err \<Rightarrow> Inl err
                    | Inr evs \<Rightarrow> Inr (emit (evs @ [PutHashSlice hashes]) s))))"

section \<open>The head section process\<close>

text \<open>\<^verbatim>\<open>wg.Done()\<close>: the counter of a \<^verbatim>\<open>sync.WaitGroup\<close> must not drop below zero.\<close>

definition wg_done :: "pool \<Rightarrow> error + pool" where
  "wg_done s = (if wg s \<le> 0 then Inl NegativeWaitGroupCounter else Inr (s\<lparr>wg := wg s - 1\<rparr>))"

subsection \<open>handleSection\<close>

definition handleSection :: "env \<Rightarrow> section_ref option \<Rightarrow> nat \<Rightarrow> pool \<Rightarrow> error + pool" where
  "handleSection e sec a s0 =
     (let s1 = upd a (\<lambda>p. p\<lparr>headSection := sec, blockHashesRequestTimer := NoTimer\<rparr>) s0
      in case sec of
           None \<Rightarrow>
             (let s2 = (if idle (store s1 ! a)
                        then emit [Syncing] ((upd a (\<lambda>p. p\<lparr>idle := False\<rparr>) s1)\<lparr>wg := wg s1 + 1\<rparr>)
                        else s1)
              in Inr (upd a (\<lambda>p. p\<lparr>headInfoTimer := After (BlockHashesTimeout e),
                                     bestIdleTimer := NoTimer\<rparr>) s2))
         | Some _ \<Rightarrow>
             (case (if \<not> idle (store s1 ! a)
                    then wg_done (upd a (\<lambda>p. p\<lparr>idle := True\<rparr>) s1)
                    else Inr s1) of
                Inl err \<Rightarrow> Inl err
              | Inr s2 \<Rightarrow>
                  Inr (upd a (\<lambda>p. p\<lparr>headInfoTimer := NoTimer,
                                     bestIdleTimer := After (IdleBestPeerTimeout e)\<rparr>) s2)))"

subsection \<open>getCurrentBlock\<close>

definition getCurrentBlock :: "env \<Rightarrow> block option \<Rightarrow> nat \<Rightarrow> pool \<Rightarrow> pool" where
  "getCurrentBlock e blk a s =
     (let found = (case blk of
                     Some b \<Rightarrow> Some b
                   | None \<Rightarrow>
                       (case get e (currentBlockHash (store s ! a)) of
                          Some ent \<Rightarrow> node_block (entry_node ent)
                        | None \<Rightarrow> None))
      in case found of
           None \<Rightarrow>
             upd a (\<lambda>p. p\<lparr>blocksRequestTimer := After (BlocksRequestInterval e)\<rparr>)
               (emit [RequestBlocks a [currentBlockHash (store s ! a)]] s)
         | Some b \<Rightarrow>
             upd a (\<lambda>p. p\<lparr>currentBlock := Some b, parentHash := blk_parent b,
                           blockHashesRequestTimer := After 0, blocksRequestTimer := NoTimer\<rparr>) s)"

subsection \<open>getBlockHashes\<close>

text \<open>The tail of \<^verbatim>\<open>getBlockHashes\<close>, reached on every path that returns true.\<close>

definition hashes_done :: "env \<Rightarrow> nat \<Rightarrow> pool \<Rightarrow> error + (bool \<times> pool)" where
  "hashes_done e a s0 =
     (let s1 = upd a (\<lambda>p. p\<lparr>blockHashesRequestTimer := NoTimer\<rparr>) s0
      in if \<not> idle (store s1 ! a) then
           (case wg_done (upd a (\<lambda>p. p\<lparr>idle := True, headInfoTimer := NoTimer,
                                         bestIdleTimer := After (IdleBestPeerTimeout e)\<rparr>) s1) of
              Inl err \<Rightarrow> Inl err
            | Inr s2 \<Rightarrow> Inr (True, s2))
         else Inr (True, s1))"

text \<open>The branch where the parent is in the canonical chain: insertion, the status
  counters, the two faults and the chain height bookkeeping.\<close>

definition insert_head :: "env \<Rightarrow> int \<Rightarrow> nat \<Rightarrow> pool \<Rightarrow> pool" where
  "insert_head e now a s0 =
     (let p = store s0 ! a;
          s1 = (emit [InsertChain (currentBlock p)] s0)
                 \<lparr>blocksInChain := blocksInChain s0 + 1, blocksInPool := blocksInPool s0 - 1\<rparr>
      in if insertChain e (currentBlock p) then
           (let s2 = addError e now ErrInvalidBlock a s1
            in s2\<lparr>badPeers := (badPeers s2)(pid p := badPeers s2 (pid p) + 1)\<rparr>)
         else
           (let s2 = (case currentBlock p of
                        None \<Rightarrow> s1
                      | Some b \<Rightarrow>
                          (case blk_td b of
                             None \<Rightarrow> s1
                           | Some btd \<Rightarrow>
                               if \<not> blk_queued b \<and> td p \<noteq> btd then
                                 (let s' = addError e now ErrIncorrectTD a s1
                                  in s'\<lparr>badPeers := (badPeers s')(pid p := badPeers s' (pid p) + 1)\<rparr>)
                               else s1));
                headKey = parentHash p;
                height = (case chainHeights s2 headKey of None \<Rightarrow> 0 | Some n \<Rightarrow> n) + 1;
                s3 = s2\<lparr>chainHeights := (chainHeights s2)(currentBlockHash p := Some height)\<rparr>;
                s4 = (if longestChain s3 < height then s3\<lparr>longestChain := height\<rparr> else s3)
            in s4\<lparr>chainHeights := (chainHeights s4)(headKey := None)\<rparr>))"

definition getBlockHashes :: "env \<Rightarrow> int \<Rightarrow> nat \<Rightarrow> pool \<Rightarrow> error + (bool \<times> pool)" where
  "getBlockHashes e now a s =
     (let p = store s ! a
      in if hasBlock e (parentHash p) then hashes_done e a (insert_head e now a s)
         else
           (case get e (parentHash p) of
              Some parent \<Rightarrow>
                if get e (currentBlockHash p) = None then
                  (case nodeCache e (currentBlockHash p) of
                     None \<Rightarrow> Inl NotFoundInNodeCache
                   | Some n \<Rightarrow>
                       hashes_done e a (emit [ActivateNewSection (currentBlockHash p) a] s))
                else hashes_done e a (emit [ActivateChain (entry_section parent) a] s)
            | None \<Rightarrow>
                Inr (False,
                  upd a (\<lambda>q. q\<lparr>blockHashesRequestTimer := After (BlockHashesRequestInterval e)\<rparr>)
                    (emit [RequestBlockHashes a (currentBlockHash p)] s))))"

subsection \<open>run\<close>

text \<open>What one pass of the \<^verbatim>\<open>select\<close> in \<^verbatim>\<open>run\<close> can receive.\<close>

datatype signal =
    Ping
  | HeadSectionC "section_ref option"
  | BlockHashesRequestTimer
  | CurrentBlockC "block option"
  | BlocksRequestTimer
  | HeadInfoTimer
  | SwitchC
  | Quit
  | BestIdleTimer

text \<open>A case of the \<^verbatim>\<open>select\<close> is ready when its channel delivers: an armed timer, a
  closed \<^verbatim>\<open>switchC\<close>; the other channels are fed from outside.\<close>

definition armed :: "timer \<Rightarrow> bool" where
  "armed t = (case t of After _ \<Rightarrow> True | _ \<Rightarrow> False)"

definition ready :: "signal \<Rightarrow> peer \<Rightarrow> bool" where
  "ready sg p =
     (case sg of
        BlockHashesRequestTimer \<Rightarrow> armed (blockHashesRequestTimer p)
      | BlocksRequestTimer \<Rightarrow> armed (blocksRequestTimer p)
      | HeadInfoTimer \<Rightarrow> armed (headInfoTimer p)
      | BestIdleTimer \<Rightarrow> armed (bestIdleTimer p)
      | SwitchC \<Rightarrow> chan_closed (switchC p)
      | _ \<Rightarrow> True)"

definition run_init :: "env \<Rightarrow> nat \<Rightarrow> pool \<Rightarrow> pool" where
  "run_init e a s =
     upd a (\<lambda>p. p\<lparr>blocksRequestTimer := After 0, headInfoTimer := After (BlockHashesTimeout e),
                   bestIdleTimer := NoTimer\<rparr>) s"

text \<open>One pass of the loop: the new state and whether the loop goes on
  (\<^verbatim>\<open>break LOOP\<close> gives False). A timer that has fired has delivered its value.\<close>

definition run_step :: "env \<Rightarrow> int \<Rightarrow> signal \<Rightarrow> nat \<Rightarrow> pool \<Rightarrow> error + (bool \<times> pool)" where
  "run_step e now sg a s =
     (case sg of
        Ping \<Rightarrow> Inr (True, s)
      | HeadSectionC sec \<Rightarrow>
          (case handleSection e sec a s of Inl err \<Rightarrow> Inl err | Inr s' \<Rightarrow> Inr (True, s'))
      | BlockHashesRequestTimer \<Rightarrow>
          (case getBlockHashes e now a (upd a (\<lambda>p. p\<lparr>blockHashesRequestTimer := Expired\<rparr>) s) of
             Inl err \<Rightarrow> Inl err
           | Inr (_, s') \<Rightarrow> Inr (True, s'))
      | CurrentBlockC blk \<Rightarrow> Inr (True, getCurrentBlock e blk a s)
      | BlocksRequestTimer \<Rightarrow>
          Inr (True, getCurrentBlock e None a (upd a (\<lambda>p. p\<lparr>blocksRequestTimer := Expired\<rparr>) s))
      | HeadInfoTimer \<Rightarrow>
          (let s1 = emit [PeerError a ErrInsufficientChainInfo]
                      (upd a (\<lambda>p. p\<lparr>headInfoTimer := Expired\<rparr>) s);
               i = pid (store s1 ! a)
           in Inr (True, s1\<lparr>badPeers := (badPeers s1)(i := badPeers s1 i + 1)\<rparr>))
      | SwitchC \<Rightarrow> Inr (False, s)
      | Quit \<Rightarrow> Inr (False, s)
      | BestIdleTimer \<Rightarrow>
          (let s1 = emit [PeerError a ErrIdleTooLong]
                      (upd a (\<lambda>p. p\<lparr>bestIdleTimer := Expired\<rparr>) s);
               i = pid (store s1 ! a)
           in Inr (True, s1\<lparr>badPeers := (badPeers s1)(i := badPeers s1 i + 1)\<rparr>)))"

text \<open>After the loop: the end of \<^verbatim>\<open>run\<close>, then the rest of the goroutine that
  \<^verbatim>\<open>switchPeer\<close> started around it.\<close>

definition run_exit :: "nat \<Rightarrow> pool \<Rightarrow> error + pool" where
  "run_exit a s0 =
     (case (if \<not> idle (store s0 ! a) then wg_done (upd a (\<lambda>p. p\<lparr>idle := True\<rparr>) s0)
            else Inr s0) of
        Inl err \<Rightarrow> Inl err
      | Inr s1 \<Rightarrow>
          if \<not> idle (store s1 ! a) then
            (case wg_done s1 of
               Inl err \<Rightarrow> Inl err
             | Inr s2 \<Rightarrow> Inr (upd a (\<lambda>p. p\<lparr>idle := True\<rparr>) s2))
          else Inr s1)"

text \<open>The loop over the signals that arrive, each with the time it is handled at; a signal
  whose case is not ready is not received. The result tells whether the process is still
  waiting in the \<^verbatim>\<open>select\<close> (True) or has left the loop.\<close>

fun run_loop :: "env \<Rightarrow> nat \<Rightarrow> (int \<times> signal) list \<Rightarrow> pool \<Rightarrow> error + (bool \<times> pool)" where
  "run_loop e a [] s = Inr (True, s)"
| "run_loop e a ((now, sg) # rest) s =
     (if ready sg (store s ! a) then
        (case run_step e now sg a s of
           Inl err \<Rightarrow> Inl err
         | Inr (continue, s') \<Rightarrow> if continue then run_loop e a rest s' else Inr (False, s'))
      else run_loop e a rest s)"

definition run :: "env \<Rightarrow> nat \<Rightarrow> (int \<times> signal) list \<Rightarrow> pool \<Rightarrow> error + (bool \<times> pool)" where
  "run e a sigs s =
     (case run_loop e a sigs (run_init e a s) of
        Inl err \<Rightarrow> Inl err
      | Inr (waiting, s1) \<Rightarrow>
          if waiting then Inr (True, s1)
          else (case run_exit a s1 of Inl err \<Rightarrow> Inl err | Inr s2 \<Rightarrow> Inr (False, s2)))"

section \<open>Invariants of the pool\<close>

text \<open>The map has one entry per id, each pointing at a record of that id in the store, and
  the best peer is a record whose two signals are open.\<close>

definition wf :: "pool \<Rightarrow> bool" where
  "wf s \<longleftrightarrow>
     distinct (map fst (peers s)) \<and>
     list_all (\<lambda>(k, a). a < length (store s) \<and> pid (store s ! a) = k) (peers s) \<and>
     (case best s of
        None \<Rightarrow> True
      | Some b \<Rightarrow> b < length (store s) \<and> \<not> chan_closed (switchC (store s ! b)) \<and>
                  (case idleC (store s ! b) of None \<Rightarrow> False | Some c \<Rightarrow> \<not> chan_closed c))"

text \<open>The number of records that are busy (\<^verbatim>\<open>idle\<close> false), removed ones included: their
  goroutines still hold them.\<close>

definition busy :: "pool \<Rightarrow> int" where
  "busy s = int (length (filter (\<lambda>p. \<not> idle p) (store s)))"

definition balanced :: "pool \<Rightarrow> bool" where
  "balanced s \<longleftrightarrow> wg s = busy s"

definition cancelled_unless_best :: "pool \<Rightarrow> bool" where
  "cancelled_unless_best s \<longleftrightarrow>
     list_all (\<lambda>a. best s = Some a \<or> chan_closed (switchC (store s ! a))) [0..<length (store s)]"

text \<open>The two closings of \<^verbatim>\<open>switchPeer\<close> on the outgoing peer, as state updates.\<close>

definition signals_of :: "pool \<Rightarrow> (string \<times> chan \<times> chan option) list" where
  "signals_of s = map (\<lambda>p. (pid p, switchC p, idleC p)) (store s)"

definition same_shape :: "pool \<Rightarrow> pool \<Rightarrow> bool" where
  "same_shape s s' \<longleftrightarrow>
     peers s' = peers s \<and> best s' = best s \<and> signals_of s' = signals_of s \<and>
     wg s' - busy s' = wg s - busy s"

text \<open>What the invariants read of a state: the map, the best pointer, each record's id
  and signals, and the difference between the counter and the number of busy records.\<close>

definition close_old :: "nat \<Rightarrow> pool \<Rightarrow> pool" where
  "close_old ol s = upd ol (\<lambda>p. p\<lparr>switchC := (switchC p)\<lparr>chan_closed := True\<rparr>\<rparr>) s"

definition close_old_idle :: "nat \<Rightarrow> pool \<Rightarrow> pool" where
  "close_old_idle ol s = upd ol (\<lambda>p. p\<lparr>idleC := map_option (\<lambda>c. c\<lparr>chan_closed := True\<rparr>) (idleC p)\<rparr>) s"

text \<open>The state \<^verbatim>\<open>switchPeer\<close> leaves when neither closing panics, and the condition under
  which that is so: the outgoing peer's two signals are open and it is not the incoming
  peer.\<close>

definition switched :: "env \<Rightarrow> nat option \<Rightarrow> nat option \<Rightarrow> pool \<Rightarrow> pool" where
  "switched e oldp newp s =
     (let s1 = (case oldp of None \<Rightarrow> s | Some ol \<Rightarrow> close_old ol s);
          s2 = (case newp of None \<Rightarrow> s1 | Some n \<Rightarrow> switch_new e n s1)
      in case oldp of None \<Rightarrow> s2 | Some ol \<Rightarrow> close_old_idle ol s2)"

definition can_switch :: "nat option \<Rightarrow> nat option \<Rightarrow> pool \<Rightarrow> bool" where
  "can_switch oldp newp s =
     (case oldp of
        None \<Rightarrow> True
      | Some ol \<Rightarrow>
          ol < length (store s) \<and> \<not> chan_closed (switchC (store s ! ol)) \<and>
          (case idleC (store s ! ol) of None \<Rightarrow> False | Some c \<Rightarrow> \<not> chan_closed c) \<and>
          newp \<noteq> Some ol)"

definition consistent :: "pool \<Rightarrow> bool" where
  "consistent s \<longleftrightarrow> wf s \<and> balanced s \<and> cancelled_unless_best s"

text \<open>The states the pool can be in: the calls into the registry and the passes of the
  head section processes, in any interleaving, from the empty pool, with whatever the
  collaborators answer at each call.\<close>

inductive reachable :: "pool \<Rightarrow> bool" where
  reach_init: "reachable empty_pool"
| reach_addPeer: "reachable s \<Longrightarrow> addPeer e now t h i s = Inr (r, s') \<Longrightarrow> reachable s'"
| reach_removePeer: "reachable s \<Longrightarrow> removePeer e i del s = Inr s' \<Longrightarrow> reachable s'"
| reach_requestBlocks: "reachable s \<Longrightarrow> requestBlocks e perm n hs s = Inr s' \<Longrightarrow> reachable s'"
| reach_peerError: "reachable s \<Longrightarrow> reachable (peerError e now i code s)"
| reach_run_init: "reachable s \<Longrightarrow> a < length (store s) \<Longrightarrow> reachable (run_init e a s)"
| reach_run_step:
    "reachable s \<Longrightarrow> a < length (store s) \<Longrightarrow> ready sg (store s ! a) \<Longrightarrow>
       run_step e now sg a s = Inr (c, s') \<Longrightarrow> reachable s'"
| reach_run_exit: "reachable s \<Longrightarrow> a < length (store s) \<Longrightarrow> run_exit a s = Inr s' \<Longrightarrow> reachable s'"

section \<open>Concrete states used below\<close>

text \<open>A local chain of weight 5 that knows none of the announced heads, an empty section
  store, a suspension interval of 60 and one repetition of block requests.\<close>

definition env0 :: env where
  "env0 = \<lparr>hasBlock = (\<lambda>_. False), getTD = 5, get = (\<lambda>_. None), nodeCache = (\<lambda>_. None),
     insertChain = (\<lambda>_. False), activateChain = (\<lambda>_ c. c), fatal = (\<lambda>_. True),
     PeerSuspensionInterval = 60, BlocksRequestRepetition = 1, BlockHashesTimeout = 1,
     IdleBestPeerTimeout = 1, BlocksRequestInterval = 1, BlockHashesRequestInterval = 1\<rparr>"

text \<open>The empty pool after a fault of the unconnected peer C at time 0.\<close>

definition pool_C_faulted :: pool where
  "pool_C_faulted = peerError env0 0 ''C'' ErrInvalidBlock empty_pool"

section \<open>Properties\<close>

subsection \<open>Store updates and the shape of a state\<close>

lemma length_store_upd [simp]: "length (store (upd a f s)) = length (store s)"
  by (simp add: upd_def)

lemma store_upd_same: "a < length (store s) \<Longrightarrow> store (upd a f s) ! a = f (store s ! a)"
  by (simp add: upd_def)

lemma store_upd_other: "m \<noteq> a \<Longrightarrow> store (upd a f s) ! m = store s ! m"
  by (simp add: upd_def)

lemma switch_new_frame:
  "peers (switch_new e n s) = peers s"
  "best (switch_new e n s) = best s"
  "blacklist (switch_new e n s) = blacklist s"
  "nextChan (switch_new e n s) = Suc (Suc (nextChan s))"
  "length (store (switch_new e n s)) = length (store s)"
  by (simp_all add: switch_new_def make_chan_def upd_def emit_def Let_def split: prod.splits)

lemma switch_new_other: "m \<noteq> n \<Longrightarrow> store (switch_new e n s) ! m = store s ! m"
  by (simp add: switch_new_def make_chan_def upd_def emit_def Let_def split: prod.splits)

lemma switch_new_same:
  assumes "n < length (store s)"
  shows "pid (store (switch_new e n s) ! n) = pid (store s ! n)"
    and "td (store (switch_new e n s) ! n) = td (store s ! n)"
    and "currentBlockHash (store (switch_new e n s) ! n) = currentBlockHash (store s ! n)"
    and "currentBlock (store (switch_new e n s) ! n) = currentBlock (store s ! n)"
    and "parentHash (store (switch_new e n s) ! n) = parentHash (store s ! n)"
    and "headSection (store (switch_new e n s) ! n) = headSection (store s ! n)"
    and "tdAdvertised (store (switch_new e n s) ! n) = tdAdvertised (store s ! n)"
    and "switchC (store (switch_new e n s) ! n) = \<lparr>chan_id = Suc (nextChan s), chan_closed = False\<rparr>"
    and "idleC (store (switch_new e n s) ! n) = Some \<lparr>chan_id = nextChan s, chan_closed = False\<rparr>"
    and "idle (store (switch_new e n s) ! n) = (headSection (store s ! n) \<noteq> None \<and> idle (store s ! n))"
    and "wg (switch_new e n s) = wg s + (if headSection (store s ! n) = None \<and> idle (store s ! n) then 1 else 0)"
  using assms
  by (simp_all add: switch_new_def make_chan_def upd_def emit_def Let_def split: prod.splits)

lemma switchPeer_None: "switchPeer e None newp s = Inr (case newp of None \<Rightarrow> s | Some n \<Rightarrow> switch_new e n s)"
  by (simp add: switchPeer_def)

lemma switchPeer_Some:
  assumes "ol < length (store s)" "\<not> chan_closed (switchC (store s ! ol))"
    and "idleC (store s ! ol) = Some c" "\<not> chan_closed c" "newp \<noteq> Some ol"
  shows "switchPeer e (Some ol) newp s =
           Inr (close_old_idle ol ((case newp of None \<Rightarrow> (\<lambda>x. x) | Some n \<Rightarrow> switch_new e n) (close_old ol s)))"
proof (cases newp)
  case None
  then show ?thesis using assms
    by (simp add: switchPeer_def close_chan_def close_old_def close_old_idle_def upd_def)
next
  case (Some n)
  then have ne: "ol \<noteq> n" using assms by simp
  have "idleC (store (switch_new e n (close_old ol s)) ! ol) = Some c"
    using assms ne by (simp add: switch_new_other close_old_def upd_def)
  note H = this [unfolded close_old_def upd_def]
  show ?thesis using assms Some H
    by (simp add: switchPeer_def close_chan_def close_old_def close_old_idle_def upd_def Let_def)
qed

lemma count_list_update:
  "a < length xs \<Longrightarrow>
     int (length (filter P (xs[a := y]))) =
       int (length (filter P xs)) + (if P y then 1 else 0) - (if P (xs ! a) then 1 else 0)"
proof (induction xs arbitrary: a)
  case Nil
  then show ?case by simp
next
  case (Cons x xs)
  show ?case
  proof (cases a)
    case 0
    then show ?thesis by simp
  next
    case (Suc n)
    with Cons.prems have "n < length xs" by simp
    from Cons.IH [OF this] show ?thesis using Suc by (auto split: if_splits)
  qed
qed

lemma map_update_same:
  "f y = f (xs ! a) \<Longrightarrow> map f (xs[a := y]) = map f xs"
  by (cases "a < length xs") (auto simp: list_eq_iff_nth_eq nth_list_update)

lemma signals_of_length: "signals_of s' = signals_of s \<Longrightarrow> length (store s') = length (store s)"
proof -
  assume "signals_of s' = signals_of s"
  then have "length (signals_of s') = length (signals_of s)" by simp
  then show ?thesis by (simp add: signals_of_def)
qed

lemma signals_of_nth:
  assumes eq: "signals_of s' = signals_of s" and a: "a < length (store s)"
  shows "pid (store s' ! a) = pid (store s ! a)"
    and "switchC (store s' ! a) = switchC (store s ! a)"
    and "idleC (store s' ! a) = idleC (store s ! a)"
proof -
  have len: "length (store s') = length (store s)" by (rule signals_of_length [OF eq])
  from eq have "signals_of s' ! a = signals_of s ! a" by simp
  then have "(pid (store s' ! a), switchC (store s' ! a), idleC (store s' ! a)) =
             (pid (store s ! a), switchC (store s ! a), idleC (store s ! a))"
    using a len by (simp add: signals_of_def)
  then show "pid (store s' ! a) = pid (store s ! a)"
    and "switchC (store s' ! a) = switchC (store s ! a)"
    and "idleC (store s' ! a) = idleC (store s ! a)" by simp_all
qed

lemma same_shape_wf:
  assumes sh: "same_shape s s'" and wf: "wf s"
  shows "wf s'"
proof -
  from sh have p: "peers s' = peers s" and b: "best s' = best s" and sg: "signals_of s' = signals_of s"
    by (simp_all add: same_shape_def)
  have len: "length (store s') = length (store s)" by (rule signals_of_length [OF sg])
  have 1: "distinct (map fst (peers s'))" using wf p by (simp add: wf_def)
  have 2: "list_all (\<lambda>(k, a). a < length (store s') \<and> pid (store s' ! a) = k) (peers s')"
    using wf unfolding wf_def list_all_iff p len
    by (auto simp: signals_of_nth [OF sg])
  have 3: "case best s' of None \<Rightarrow> True
      | Some b \<Rightarrow> b < length (store s') \<and> \<not> chan_closed (switchC (store s' ! b)) \<and>
                  (case idleC (store s' ! b) of None \<Rightarrow> False | Some c \<Rightarrow> \<not> chan_closed c)"
    using wf unfolding wf_def b len
    by (auto simp: signals_of_nth [OF sg] split: option.splits)
  show ?thesis unfolding wf_def using 1 2 3 by simp
qed

lemma same_shape_balanced: "same_shape s s' \<Longrightarrow> balanced s \<Longrightarrow> balanced s'"
  by (simp add: same_shape_def balanced_def)

lemma same_shape_cancelled:
  assumes sh: "same_shape s s'" and c: "cancelled_unless_best s"
  shows "cancelled_unless_best s'"
proof -
  from sh have b: "best s' = best s" and sg: "signals_of s' = signals_of s"
    by (simp_all add: same_shape_def)
  have len: "length (store s') = length (store s)" by (rule signals_of_length [OF sg])
  show ?thesis using c unfolding cancelled_unless_best_def list_all_iff b len
    by (simp add: signals_of_nth [OF sg])
qed

lemma handleSection_shape:
  "a < length (store s) \<Longrightarrow> handleSection e sec a s = Inr s' \<Longrightarrow> same_shape s s'"
  by (auto simp: handleSection_def same_shape_def signals_of_def busy_def upd_def emit_def wg_done_def
      Let_def count_list_update map_update_same split: option.splits if_splits sum.splits)

subsection \<open>Suspension\<close>

text \<open>
  C5. For every id, \<^verbatim>\<open>suspended\<close> answers true exactly when the blacklist holds an entry for
  the id whose time plus the suspension interval is still after now; a call at or after that
  moment answers false and deletes the entry; and \<^verbatim>\<open>addPeer\<close> on a suspended id returns
  suspended = true, promoted = false and leaves the whole state, the peer map included, as
  it was.
\<close>

theorem suspended_iff_recent_fault:
  "(fst (suspended e now i s) \<longleftrightarrow>
      (\<exists>suspendedAt. blacklist s i = Some suspendedAt \<and> now < suspendedAt + PeerSuspensionInterval e)) \<and>
   (\<forall>suspendedAt. blacklist s i = Some suspendedAt \<and> \<not> now < suspendedAt + PeerSuspensionInterval e \<longrightarrow>
      suspended e now i s = (False, s\<lparr>blacklist := (blacklist s)(i := None)\<rparr>)) \<and>
   (fst (suspended e now i s) \<longrightarrow> addPeer e now t h i s = Inr ((False, True), s))"
  by (auto simp: suspended_def addPeer_def split: option.splits)

theorem suspended_iff_recent_fault_witness:
  "fst (suspended env0 30 ''C'' pool_C_faulted) \<and>
   addPeer env0 30 7 1 ''C'' pool_C_faulted = Inr ((False, True), pool_C_faulted) \<and>
   blacklist pool_C_faulted ''C'' = Some 0 \<and> \<not> (61::int) < 0 + PeerSuspensionInterval env0 \<and>
   suspended env0 61 ''C'' pool_C_faulted =
     (False, pool_C_faulted\<lparr>blacklist := (blacklist pool_C_faulted)(''C'' := None)\<rparr>)"
proof -
  have b: "blacklist pool_C_faulted ''C'' = Some 0"
    by (simp add: pool_C_faulted_def peerError_def addToBlacklist_def empty_pool_def)
  have i: "PeerSuspensionInterval env0 = 60" by (simp add: env0_def)
  have s: "fst (suspended env0 30 ''C'' pool_C_faulted)"
    by (simp add: suspended_def b i)
  from suspended_iff_recent_fault [of env0 30 "''C''" pool_C_faulted 7 1] s
  have 1: "addPeer env0 30 7 1 ''C'' pool_C_faulted = Inr ((False, True), pool_C_faulted)" by blast
  from suspended_iff_recent_fault [of env0 61 "''C''" pool_C_faulted 7 1] b i
  have 2: "suspended env0 61 ''C'' pool_C_faulted =
     (False, pool_C_faulted\<lparr>blacklist := (blacklist pool_C_faulted)(''C'' := None)\<rparr>)" by simp
  show ?thesis using s 1 2 b i by simp
qed

subsection \<open>switchPeer\<close>

lemma switchPeer_ok:
  "can_switch oldp newp s \<Longrightarrow> switchPeer e oldp newp s = Inr (switched e oldp newp s)"
proof (cases oldp)
  case None
  then show ?thesis by (simp add: switchPeer_None switched_def)
next
  case (Some ol)
  assume "can_switch oldp newp s"
  with Some obtain c where "ol < length (store s)" "\<not> chan_closed (switchC (store s ! ol))"
    "idleC (store s ! ol) = Some c" "\<not> chan_closed c" "newp \<noteq> Some ol"
    by (auto simp: can_switch_def split: option.splits)
  from switchPeer_Some [OF this] show ?thesis using Some
    by (simp add: switched_def split: option.splits)
qed

lemma close_old_frame:
  "peers (close_old ol s) = peers s" "best (close_old ol s) = best s"
  "blacklist (close_old ol s) = blacklist s" "wg (close_old ol s) = wg s"
  "nextChan (close_old ol s) = nextChan s" "length (store (close_old ol s)) = length (store s)"
  "events (close_old ol s) = events s"
  "m \<noteq> ol \<Longrightarrow> store (close_old ol s) ! m = store s ! m"
  by (simp_all add: close_old_def upd_def)

lemma close_old_idle_frame:
  "peers (close_old_idle ol s) = peers s" "best (close_old_idle ol s) = best s"
  "blacklist (close_old_idle ol s) = blacklist s" "wg (close_old_idle ol s) = wg s"
  "nextChan (close_old_idle ol s) = nextChan s"
  "length (store (close_old_idle ol s)) = length (store s)"
  "events (close_old_idle ol s) = events s"
  "m \<noteq> ol \<Longrightarrow> store (close_old_idle ol s) ! m = store s ! m"
  by (simp_all add: close_old_idle_def upd_def)

lemma switched_frame:
  "peers (switched e oldp newp s) = peers s"
  "best (switched e oldp newp s) = best s"
  "blacklist (switched e oldp newp s) = blacklist s"
  "length (store (switched e oldp newp s)) = length (store s)"
  by (simp_all add: switched_def Let_def close_old_frame close_old_idle_frame switch_new_frame
      split: option.splits)

lemma switched_other:
  assumes "oldp \<noteq> Some m" "newp \<noteq> Some m"
  shows "store (switched e oldp newp s) ! m = store s ! m"
proof (cases oldp)
  case None
  then show ?thesis using assms
    by (cases newp) (simp_all add: switched_def switch_new_other)
next
  case (Some ol)
  then have ne: "m \<noteq> ol" using assms by auto
  show ?thesis
  proof (cases newp)
    case None
    then show ?thesis using Some ne
      by (simp add: switched_def close_old_frame close_old_idle_frame)
  next
    case (Some n)
    then have "m \<noteq> n" using assms by auto
    then show ?thesis using Some \<open>oldp = Some ol\<close> ne
      by (simp add: switched_def close_old_frame close_old_idle_frame switch_new_other)
  qed
qed

lemma switched_old:
  assumes "ol < length (store s)" "newp \<noteq> Some ol"
  shows "pid (store (switched e (Some ol) newp s) ! ol) = pid (store s ! ol)"
    and "td (store (switched e (Some ol) newp s) ! ol) = td (store s ! ol)"
    and "idle (store (switched e (Some ol) newp s) ! ol) = idle (store s ! ol)"
    and "chan_closed (switchC (store (switched e (Some ol) newp s) ! ol))"
    and "idleC (store (switched e (Some ol) newp s) ! ol) =
           map_option (\<lambda>c. c\<lparr>chan_closed := True\<rparr>) (idleC (store s ! ol))"
proof -
  let ?mid = "(case newp of None \<Rightarrow> close_old ol s | Some n \<Rightarrow> switch_new e n (close_old ol s))"
  have sw: "switched e (Some ol) newp s = close_old_idle ol ?mid"
    by (simp add: switched_def split: option.splits)
  have len: "ol < length (store ?mid)"
    using assms by (simp add: close_old_frame switch_new_frame split: option.splits)
  have mid: "store ?mid ! ol = store (close_old ol s) ! ol"
    using assms by (cases newp) (auto simp: switch_new_other)
  have co: "store (close_old ol s) ! ol = (store s ! ol)\<lparr>switchC := (switchC (store s ! ol))\<lparr>chan_closed := True\<rparr>\<rparr>"
    using assms by (simp add: close_old_def upd_def)
  have fin: "store (close_old_idle ol ?mid) ! ol =
      (store ?mid ! ol)\<lparr>idleC := map_option (\<lambda>c. c\<lparr>chan_closed := True\<rparr>) (idleC (store ?mid ! ol))\<rparr>"
    using len by (simp add: close_old_idle_def upd_def)
  show "pid (store (switched e (Some ol) newp s) ! ol) = pid (store s ! ol)"
    and "td (store (switched e (Some ol) newp s) ! ol) = td (store s ! ol)"
    and "idle (store (switched e (Some ol) newp s) ! ol) = idle (store s ! ol)"
    and "chan_closed (switchC (store (switched e (Some ol) newp s) ! ol))"
    and "idleC (store (switched e (Some ol) newp s) ! ol) =
           map_option (\<lambda>c. c\<lparr>chan_closed := True\<rparr>) (idleC (store s ! ol))"
    unfolding sw fin mid co by simp_all
qed

lemma switched_new:
  assumes "n < length (store s)" "oldp \<noteq> Some n"
  shows "pid (store (switched e oldp (Some n) s) ! n) = pid (store s ! n)"
    and "td (store (switched e oldp (Some n) s) ! n) = td (store s ! n)"
    and "currentBlockHash (store (switched e oldp (Some n) s) ! n) = currentBlockHash (store s ! n)"
    and "currentBlock (store (switched e oldp (Some n) s) ! n) = currentBlock (store s ! n)"
    and "parentHash (store (switched e oldp (Some n) s) ! n) = parentHash (store s ! n)"
    and "headSection (store (switched e oldp (Some n) s) ! n) = headSection (store s ! n)"
    and "tdAdvertised (store (switched e oldp (Some n) s) ! n) = tdAdvertised (store s ! n)"
    and "\<not> chan_closed (switchC (store (switched e oldp (Some n) s) ! n))"
    and "nextChan s \<le> chan_id (switchC (store (switched e oldp (Some n) s) ! n))"
    and "idleC (store (switched e oldp (Some n) s) ! n) = Some \<lparr>chan_id = nextChan s, chan_closed = False\<rparr>"
    and "idle (store (switched e oldp (Some n) s) ! n) = (headSection (store s ! n) \<noteq> None \<and> idle (store s ! n))"
proof -
  let ?base = "(case oldp of None \<Rightarrow> s | Some ol \<Rightarrow> close_old ol s)"
  have sw: "store (switched e oldp (Some n) s) ! n = store (switch_new e n ?base) ! n"
    using assms by (cases oldp) (auto simp: switched_def close_old_idle_frame)
  have len: "n < length (store ?base)"
    using assms by (simp add: close_old_frame split: option.splits)
  have base: "store ?base ! n = store s ! n" "nextChan ?base = nextChan s"
    using assms by (cases oldp; auto simp: close_old_frame)+
  show "pid (store (switched e oldp (Some n) s) ! n) = pid (store s ! n)"
    and "td (store (switched e oldp (Some n) s) ! n) = td (store s ! n)"
    and "currentBlockHash (store (switched e oldp (Some n) s) ! n) = currentBlockHash (store s ! n)"
    and "currentBlock (store (switched e oldp (Some n) s) ! n) = currentBlock (store s ! n)"
    and "parentHash (store (switched e oldp (Some n) s) ! n) = parentHash (store s ! n)"
    and "headSection (store (switched e oldp (Some n) s) ! n) = headSection (store s ! n)"
    and "tdAdvertised (store (switched e oldp (Some n) s) ! n) = tdAdvertised (store s ! n)"
    and "\<not> chan_closed (switchC (store (switched e oldp (Some n) s) ! n))"
    and "nextChan s \<le> chan_id (switchC (store (switched e oldp (Some n) s) ! n))"
    and "idleC (store (switched e oldp (Some n) s) ! n) = Some \<lparr>chan_id = nextChan s, chan_closed = False\<rparr>"
    and "idle (store (switched e oldp (Some n) s) ! n) = (headSection (store s ! n) \<noteq> None \<and> idle (store s ! n))"
    unfolding sw by (simp_all add: switch_new_same [OF len] base)
qed

lemma count_busy_map: "length (filter (\<lambda>p. \<not> idle p) xs) = length (filter Not (map idle xs))"
  by (induction xs) auto

lemma busy_cong: "map idle (store s') = map idle (store s) \<Longrightarrow> busy s' = busy s"
  unfolding busy_def count_busy_map by simp

lemma store_single_change:
  assumes "length ys = length xs" "\<And>m. m \<noteq> a \<Longrightarrow> ys ! m = xs ! m"
  shows "ys = xs[a := ys ! a]"
proof (rule nth_equalityI)
  show "length ys = length (xs[a := ys ! a])" using assms by simp
next
  fix i assume "i < length ys"
  then show "ys ! i = xs[a := ys ! a] ! i"
    using assms by (cases "i = a") simp_all
qed

lemma close_old_busy: "busy (close_old ol s) = busy s"
  by (rule busy_cong) (simp add: close_old_def upd_def map_update_same)

lemma close_old_idle_busy: "busy (close_old_idle ol s) = busy s"
  by (rule busy_cong) (simp add: close_old_idle_def upd_def map_update_same)

lemma switch_new_slack:
  assumes n: "n < length (store s)"
  shows "wg (switch_new e n s) - busy (switch_new e n s) = wg s - busy s"
proof -
  have "store (switch_new e n s) = (store s)[n := store (switch_new e n s) ! n]"
    by (rule store_single_change) (simp_all add: switch_new_frame switch_new_other)
  then have "busy (switch_new e n s) =
      int (length (filter (\<lambda>p. \<not> idle p) ((store s)[n := store (switch_new e n s) ! n])))"
    by (simp add: busy_def)
  also have "\<dots> = busy s + (if \<not> idle (store (switch_new e n s) ! n) then 1 else 0)
                        - (if \<not> idle (store s ! n) then 1 else 0)"
    using n by (simp add: count_list_update busy_def)
  finally show ?thesis
    by (simp add: switch_new_same [OF n])
qed

lemma switched_slack:
  assumes "\<And>n. newp = Some n \<Longrightarrow> n < length (store s)"
  shows "wg (switched e oldp newp s) - busy (switched e oldp newp s) = wg s - busy s"
proof (cases newp)
  case None
  then show ?thesis
    by (cases oldp)
      (simp_all add: switched_def close_old_busy close_old_idle_busy close_old_frame close_old_idle_frame)
next
  case (Some n)
  then have n: "n < length (store s)" by (rule assms)
  show ?thesis
  proof (cases oldp)
    case None
    then show ?thesis using Some n by (simp add: switched_def switch_new_slack)
  next
    case (Some ol)
    have "n < length (store (close_old ol s))" using n by (simp add: close_old_frame)
    from switch_new_slack [OF this, of e] show ?thesis using Some \<open>newp = Some n\<close>
      by (simp add: switched_def close_old_busy close_old_idle_busy close_old_frame close_old_idle_frame)
  qed
qed

lemma switched_pid:
  assumes "\<And>n. newp = Some n \<Longrightarrow> n < length (store s)"
    and "\<And>ol. oldp = Some ol \<Longrightarrow> ol < length (store s) \<and> newp \<noteq> Some ol"
  shows "pid (store (switched e oldp newp s) ! m) = pid (store s ! m)"
proof -
  consider "oldp = Some m" | "oldp \<noteq> Some m" "newp = Some m" | "oldp \<noteq> Some m" "newp \<noteq> Some m"
    by blast
  then show ?thesis
  proof cases
    case 1
    with assms(2) [of m] show ?thesis by (simp add: switched_old)
  next
    case 2
    with assms(1) [of m] show ?thesis by (simp add: switched_new)
  next
    case 3
    then show ?thesis by (simp add: switched_other)
  qed
qed

subsection \<open>admit: the record of an announcing peer\<close>

lemma wf_entry:
  "wf s \<Longrightarrow> map_of (peers s) i = Some p \<Longrightarrow> p < length (store s) \<and> pid (store s ! p) = i"
proof -
  assume wf: "wf s" and m: "map_of (peers s) i = Some p"
  from m have "(i, p) \<in> set (peers s)" by (rule map_of_SomeD)
  with wf show ?thesis by (auto simp: wf_def list_all_iff)
qed

lemma wf_best:
  "wf s \<Longrightarrow> best s = Some b \<Longrightarrow>
     b < length (store s) \<and> \<not> chan_closed (switchC (store s ! b)) \<and>
     (\<exists>c. idleC (store s ! b) = Some c \<and> \<not> chan_closed c)"
  by (auto simp: wf_def split: option.splits)

lemma admit_found:
  "map_of (peers s) i = Some p \<Longrightarrow>
     admit t h i s = (p, (upd p (setChainInfo t h) s)\<lparr>newBlocks := newBlocks s + 1\<rparr>)"
  by (simp add: admit_def)

lemma admit_found_shape:
  assumes "map_of (peers s) i = Some p"
  shows "same_shape s (snd (admit t h i s))"
proof -
  have "map idle ((store s)[p := setChainInfo t h (store s ! p)]) = map idle (store s)"
    by (rule map_update_same) (simp add: setChainInfo_def)
  then have b: "busy ((upd p (setChainInfo t h) s)\<lparr>newBlocks := newBlocks s + 1\<rparr>) = busy s"
    by (intro busy_cong) (simp add: upd_def)
  have "map (\<lambda>p. (pid p, switchC p, idleC p)) ((store s)[p := setChainInfo t h (store s ! p)]) =
        map (\<lambda>p. (pid p, switchC p, idleC p)) (store s)"
    by (rule map_update_same) (simp add: setChainInfo_def)
  then show ?thesis using b
    by (simp add: admit_found [OF assms] same_shape_def signals_of_def upd_def)
qed

lemma admit_new:
  "map_of (peers s) i = None \<Longrightarrow>
     fst (admit t h i s) = length (store s) \<and>
     peers (snd (admit t h i s)) = AList.update i (length (store s)) (peers s) \<and>
     best (snd (admit t h i s)) = best s \<and>
     wg (snd (admit t h i s)) = wg s \<and>
     blacklist (snd (admit t h i s)) = blacklist s \<and>
     length (store (snd (admit t h i s))) = Suc (length (store s)) \<and>
     take (length (store s)) (store (snd (admit t h i s))) = store s \<and>
     pid (store (snd (admit t h i s)) ! length (store s)) = i \<and>
     idle (store (snd (admit t h i s)) ! length (store s)) \<and>
     chan_closed (switchC (store (snd (admit t h i s)) ! length (store s)))"
  by (simp add: admit_def newPeer_def Let_def)

lemma set_update_entries: "set (AList.update k v al) \<subseteq> insert (k, v) (set al)"
  by (induction al) auto

lemma take_nth_eq: "take n ys = xs \<Longrightarrow> m < length xs \<Longrightarrow> ys ! m = xs ! m"
  by (metis nth_take length_take min_less_iff_conj)

lemma admit_wf:
  assumes wf: "wf s"
  shows "wf (snd (admit t h i s))"
proof (cases "map_of (peers s) i")
  case (Some p)
  from same_shape_wf [OF admit_found_shape [OF Some] wf] show ?thesis .
next
  case None
  let ?s = "snd (admit t h i s)"
  note n = admit_new [OF None, of t h]
  have old: "\<And>m. m < length (store s) \<Longrightarrow> store ?s ! m = store s ! m"
    using n by (auto intro: take_nth_eq)
  have 1: "distinct (map fst (peers ?s))"
    using wf n by (simp add: wf_def distinct_update)
  have "\<And>k a. (k, a) \<in> set (peers ?s) \<Longrightarrow> a < length (store ?s) \<and> pid (store ?s ! a) = k"
  proof -
    fix k a assume "(k, a) \<in> set (peers ?s)"
    then have "(k, a) \<in> set (AList.update i (length (store s)) (peers s))" using n by simp
    then have "(k, a) = (i, length (store s)) \<or> (k, a) \<in> set (peers s)"
      using set_update_entries by fastforce
    then show "a < length (store ?s) \<and> pid (store ?s ! a) = k"
    proof
      assume "(k, a) = (i, length (store s))"
      then show ?thesis using n by simp
    next
      assume "(k, a) \<in> set (peers s)"
      with wf have "a < length (store s) \<and> pid (store s ! a) = k"
        by (auto simp: wf_def list_all_iff)
      then show ?thesis using n old by simp
    qed
  qed
  then have 2: "list_all (\<lambda>(k, a). a < length (store ?s) \<and> pid (store ?s ! a) = k) (peers ?s)"
    by (auto simp: list_all_iff)
  have 3: "case best ?s of None \<Rightarrow> True
      | Some b \<Rightarrow> b < length (store ?s) \<and> \<not> chan_closed (switchC (store ?s ! b)) \<and>
                  (case idleC (store ?s ! b) of None \<Rightarrow> False | Some c \<Rightarrow> \<not> chan_closed c)"
  proof (cases "best s")
    case None
    then show ?thesis using n by simp
  next
    case (Some b)
    from wf_best [OF wf Some] show ?thesis using n old [of b] Some by auto
  qed
  show ?thesis unfolding wf_def using 1 2 3 by simp
qed

lemma admit_best: "best (snd (admit t h i s)) = best s"
  by (simp add: admit_def newPeer_def upd_def Let_def split: option.splits)

lemma admit_blacklist: "blacklist (snd (admit t h i s)) = blacklist s"
  by (simp add: admit_def newPeer_def upd_def Let_def split: option.splits)

lemma admit_lookup:
  assumes wf: "wf s"
  shows "map_of (peers (snd (admit t h i s))) i = Some (fst (admit t h i s))"
    and "fst (admit t h i s) < length (store (snd (admit t h i s)))"
    and "pid (store (snd (admit t h i s)) ! fst (admit t h i s)) = i"
proof -
  have "map_of (peers (snd (admit t h i s))) i = Some (fst (admit t h i s)) \<and>
        fst (admit t h i s) < length (store (snd (admit t h i s))) \<and>
        pid (store (snd (admit t h i s)) ! fst (admit t h i s)) = i"
  proof (cases "map_of (peers s) i")
    case None
    from admit_new [OF None, of t h] show ?thesis by (simp add: update_conv')
  next
    case (Some p)
    from wf_entry [OF wf Some] show ?thesis
      by (simp add: admit_found [OF Some] upd_def Some setChainInfo_def)
  qed
  then show "map_of (peers (snd (admit t h i s))) i = Some (fst (admit t h i s))"
    and "fst (admit t h i s) < length (store (snd (admit t h i s)))"
    and "pid (store (snd (admit t h i s)) ! fst (admit t h i s)) = i" by simp_all
qed

lemma admit_old_records:
  "m < length (store s) \<Longrightarrow> m \<noteq> fst (admit t h i s) \<Longrightarrow> store (snd (admit t h i s)) ! m = store s ! m"
  by (cases "map_of (peers s) i")
    (simp_all add: admit_def newPeer_def upd_def Let_def nth_append)

lemma admit_balanced: "balanced s \<Longrightarrow> balanced (snd (admit t h i s))"
proof (cases "map_of (peers s) i")
  case (Some p)
  assume "balanced s"
  from same_shape_balanced [OF admit_found_shape [OF Some] this] show ?thesis .
next
  case None
  assume "balanced s"
  then show ?thesis using None
    by (simp add: admit_def newPeer_def Let_def balanced_def busy_def)
qed

lemma admit_cancelled: "cancelled_unless_best s \<Longrightarrow> cancelled_unless_best (snd (admit t h i s))"
proof (cases "map_of (peers s) i")
  case (Some p)
  assume "cancelled_unless_best s"
  from same_shape_cancelled [OF admit_found_shape [OF Some] this] show ?thesis .
next
  case None
  assume "cancelled_unless_best s"
  then show ?thesis using None
    by (auto simp: admit_def newPeer_def Let_def cancelled_unless_best_def list_all_iff nth_append)
qed

subsection \<open>Invariants across a switch\<close>

lemma close_old_best_update: "close_old ol (s\<lparr>best := b\<rparr>) = (close_old ol s)\<lparr>best := b\<rparr>"
  by (simp add: close_old_def upd_def)

lemma close_old_idle_best_update: "close_old_idle ol (s\<lparr>best := b\<rparr>) = (close_old_idle ol s)\<lparr>best := b\<rparr>"
  by (simp add: close_old_idle_def upd_def)

lemma switch_new_best_update: "switch_new e n (s\<lparr>best := b\<rparr>) = (switch_new e n s)\<lparr>best := b\<rparr>"
  by (simp add: switch_new_def make_chan_def upd_def emit_def Let_def split: prod.splits)

lemma switched_best_update:
  "switched e oldp newp (s\<lparr>best := b\<rparr>) = (switched e oldp newp s)\<lparr>best := b\<rparr>"
  by (cases oldp; cases newp)
    (simp_all add: switched_def close_old_best_update close_old_idle_best_update switch_new_best_update)

lemma can_switch_best_update: "can_switch oldp newp (s\<lparr>best := b\<rparr>) = can_switch oldp newp s"
  by (cases oldp) (simp_all add: can_switch_def)

lemma wf_can_switch: "wf s \<Longrightarrow> newp \<noteq> best s \<or> newp = None \<Longrightarrow> can_switch (best s) newp s"
  by (cases "best s") (auto simp: can_switch_def dest: wf_best)

lemma switched_inv:
  assumes wf: "wf s" and bal: "balanced s" and can: "cancelled_unless_best s"
    and new: "\<And>n. newp = Some n \<Longrightarrow> n < length (store s) \<and> best s \<noteq> Some n"
  shows "wf ((switched e (best s) newp s)\<lparr>best := newp\<rparr>)"
    and "balanced ((switched e (best s) newp s)\<lparr>best := newp\<rparr>)"
    and "cancelled_unless_best ((switched e (best s) newp s)\<lparr>best := newp\<rparr>)"
proof -
  let ?s = "switched e (best s) newp s"
  have old: "\<And>ol. best s = Some ol \<Longrightarrow> ol < length (store s) \<and> newp \<noteq> Some ol"
    using wf_best [OF wf] new by (cases newp) auto
  have pid: "\<And>m. pid (store ?s ! m) = pid (store s ! m)"
    by (rule switched_pid) (use new old in auto)
  have 1: "distinct (map fst (peers ?s))" using wf by (simp add: wf_def switched_frame)
  have 2: "list_all (\<lambda>(k, a). a < length (store ?s) \<and> pid (store ?s ! a) = k) (peers ?s)"
    using wf by (simp add: wf_def switched_frame pid)
  have 3: "case newp of None \<Rightarrow> True
      | Some b \<Rightarrow> b < length (store ?s) \<and> \<not> chan_closed (switchC (store ?s ! b)) \<and>
                  (case idleC (store ?s ! b) of None \<Rightarrow> False | Some c \<Rightarrow> \<not> chan_closed c)"
  proof (cases newp)
    case None
    then show ?thesis by simp
  next
    case (Some n)
    from new [OF Some] have n: "n < length (store s)" "best s \<noteq> Some n" by simp_all
    show ?thesis unfolding Some
      by (simp add: switched_frame n switched_new [OF n])
  qed
  show "wf (?s\<lparr>best := newp\<rparr>)" unfolding wf_def using 1 2 3
    by (cases newp) simp_all
  have "wg ?s - busy ?s = wg s - busy s"
    by (rule switched_slack) (use new in auto)
  then show "balanced (?s\<lparr>best := newp\<rparr>)" using bal by (simp add: balanced_def busy_def)
  have "\<And>a. a < length (store s) \<Longrightarrow> newp \<noteq> Some a \<Longrightarrow> chan_closed (switchC (store ?s ! a))"
  proof -
    fix a assume a: "a < length (store s)" and na: "newp \<noteq> Some a"
    show "chan_closed (switchC (store ?s ! a))"
    proof (cases "best s = Some a")
      case True
      then show ?thesis using switched_old(4) [OF a na, of e] by simp
    next
      case False
      with can a have "chan_closed (switchC (store s ! a))"
        by (auto simp: cancelled_unless_best_def list_all_iff)
      then show ?thesis using False na by (simp add: switched_other)
    qed
  qed
  then have "\<forall>a\<in>{0..<length (store s)}. newp = Some a \<or> chan_closed (switchC (store ?s ! a))"
    by fastforce
  then show "cancelled_unless_best (?s\<lparr>best := newp\<rparr>)"
    by (simp add: cancelled_unless_best_def list_all_iff switched_frame)
qed

subsection \<open>addPeer, path by path\<close>

lemma suspended_shape: "same_shape s (snd (suspended e now i s))"
  by (simp add: suspended_def same_shape_def signals_of_def busy_def split: option.splits)

lemma suspended_frame:
  "store (snd (suspended e now i s)) = store s"
  "peers (snd (suspended e now i s)) = peers s"
  "best (snd (suspended e now i s)) = best s"
  "events (snd (suspended e now i s)) = events s"
  by (simp_all add: suspended_def split: option.splits)

text \<open>The state in which \<^verbatim>\<open>addPeer\<close> decides: after the suspension check and the update or
  creation of the record.\<close>

lemma bestPeers_shape: "same_shape s (s\<lparr>bestPeers := f\<rparr>)"
  by (simp add: same_shape_def signals_of_def busy_def)

lemma addPeer_paths:
  fixes e :: env and now t :: int and h :: hash and i :: string and s :: pool
  assumes wf: "wf s"
  defines "s1 \<equiv> snd (suspended e now i s)"
  defines "p \<equiv> fst (admit t h i s1)"
  defines "s2 \<equiv> snd (admit t h i s1)"
  defines "currentTD \<equiv> (case best s2 of None \<Rightarrow> getTD e | Some b \<Rightarrow> td (store s2 ! b))"
  shows "addPeer e now t h i s =
    (if fst (suspended e now i s) then Inr ((False, True), s)
     else if hasBlock e h then Inr ((False, False), s2)
     else if best s2 = Some p then Inr ((True, False), s2)
     else if currentTD < t then
       Inr ((True, False),
            (switched e (best s2) (Some p)
               (s2\<lparr>bestPeers := (bestPeers s2)(pid (store s2 ! p) := bestPeers s2 (pid (store s2 ! p)) + 1)\<rparr>))
            \<lparr>best := Some p\<rparr>)
     else Inr ((False, False), s2))"
proof -
  have susp: "fst (suspended e now i s) \<Longrightarrow> s1 = s"
    by (auto simp: s1_def suspended_def split: option.splits if_splits)
  have wf1: "wf s1" unfolding s1_def by (rule same_shape_wf [OF suspended_shape wf])
  have wf2: "wf s2" unfolding s2_def by (rule admit_wf [OF wf1])
  let ?s2' = "s2\<lparr>bestPeers := (bestPeers s2)(pid (store s2 ! p) := bestPeers s2 (pid (store s2 ! p)) + 1)\<rparr>"
  have wf2': "wf ?s2'" by (rule same_shape_wf [OF bestPeers_shape wf2])
  have sw: "best s2 \<noteq> Some p \<Longrightarrow>
      switchPeer e (best s2) (Some p) ?s2' = Inr (switched e (best s2) (Some p) ?s2')"
  proof -
    assume "best s2 \<noteq> Some p"
    then have "can_switch (best ?s2') (Some p) ?s2'"
      by (intro wf_can_switch [OF wf2']) auto
    then show ?thesis by (simp add: switchPeer_ok)
  qed
  show ?thesis
    unfolding addPeer_def Let_def
    by (auto simp: case_prod_beta susp sw s1_def [symmetric] s2_def [symmetric] p_def [symmetric]
        currentTD_def)
qed

end
